theory Spec2Isabelle
  imports Main "HOL-Library.AList" "HOL-Library.DAList" "HOL-Library.Multiset"
begin

section \<open>Security log anomaly detector: shallow embedding of anomaly_detector.py\<close>

subsection \<open>Python strings\<close>

text \<open>
  A Python \<open>str\<close> is a sequence of Unicode code points; the log file is decoded as
  UTF-8, so a character is modelled by its code point (a natural number) and a string by
  a list of code points. \<open>str\<close> turns an ASCII literal into such a string.
\<close>

type_synonym codepoint = nat
type_synonym ustr = "codepoint list"

definition str :: "string \<Rightarrow> ustr" where
  "str s = map of_char s"

text \<open>
  The characters that \<open>str.strip()\<close> and \<open>str.split()\<close> (both called without an
  argument) treat as whitespace: the code points for which \<open>str.isspace\<close> holds.
\<close>

definition is_space :: "codepoint \<Rightarrow> bool" where
  "is_space c \<longleftrightarrow>
     (9 \<le> c \<and> c \<le> 13) \<or> (28 \<le> c \<and> c \<le> 32) \<or> c = 133 \<or> c = 160 \<or> c = 5760 \<or>
     (8192 \<le> c \<and> c \<le> 8202) \<or> c = 8232 \<or> c = 8233 \<or> c = 8239 \<or> c = 8287 \<or> c = 12288"

text \<open>\<open>line.strip()\<close>: leading and trailing whitespace removed.\<close>

definition strip :: "ustr \<Rightarrow> ustr" where
  "strip s = rev (dropWhile is_space (rev (dropWhile is_space s)))"

text \<open>
  \<open>line.split()\<close>: skip a run of whitespace, take the characters up to the next
  whitespace as one field, and go on behind it; no empty field is ever produced.
\<close>

function split :: "ustr \<Rightarrow> ustr list" where
  "split s =
     (let r = dropWhile is_space s
      in if r = [] then []
         else takeWhile (\<lambda>c. \<not> is_space c) r # split (dropWhile (\<lambda>c. \<not> is_space c) r))"
  by pat_completeness auto
termination
proof (relation "measure length")
  show "wf (measure length)" by simp
next
  fix s r :: ustr
  assume r: "r = dropWhile is_space s" and ne: "r \<noteq> []"
  from r ne have "\<not> is_space (hd r)"
    using hd_dropWhile by metis
  with ne have "dropWhile (\<lambda>c. \<not> is_space c) r = dropWhile (\<lambda>c. \<not> is_space c) (tl r)"
    by (cases r) simp_all
  moreover have "length (dropWhile (\<lambda>c. \<not> is_space c) (tl r)) \<le> length (tl r)"
    by (rule length_dropWhile_le)
  moreover from ne have "length (tl r) < length r" by (cases r) simp_all
  moreover from r have "length r \<le> length s" by (simp add: length_dropWhile_le)
  ultimately show "(dropWhile (\<lambda>c. \<not> is_space c) r, s) \<in> measure length" by simp
qed

declare split.simps [simp del]

text \<open>
  \<open>str.upper()\<close> maps every code point on its own to its full upper-case mapping, which
  may be several code points. On ASCII that is the letters \<open>a\<close> to \<open>z\<close> moved to
  \<open>A\<close> to \<open>Z\<close>; the mapping of the code points beyond ASCII is the table of the Unicode
  database, which is not part of the repository and is the parameter \<open>uc\<close>.
\<close>

definition upper_char :: "(codepoint \<Rightarrow> ustr) \<Rightarrow> codepoint \<Rightarrow> ustr" where
  "upper_char uc c =
     (if c < 128 then [if 97 \<le> c \<and> c \<le> 122 then c - 32 else c] else uc c)"

definition upper :: "(codepoint \<Rightarrow> ustr) \<Rightarrow> ustr \<Rightarrow> ustr" where
  "upper uc s = concat (map (upper_char uc) s)"

subsection \<open>Python dictionaries\<close>

text \<open>
  A \<open>dict\<close> keeps its keys distinct and in insertion order: an association list with
  distinct keys. Assigning to a key that is present replaces its value in place, assigning
  to a new key appends the entry.
\<close>

type_synonym tally = "(ustr, int) alist"

definition items :: "('k, 'v) alist \<Rightarrow> ('k \<times> 'v) list" where
  "items d = DAList.impl_of d"

definition dict_get :: "('k, 'v) alist \<Rightarrow> 'k \<Rightarrow> 'v \<Rightarrow> 'v" where
  "dict_get d k dflt = (case DAList.lookup d k of None \<Rightarrow> dflt | Some v \<Rightarrow> v)"

definition dict_set :: "('k, 'v) alist \<Rightarrow> 'k \<Rightarrow> 'v \<Rightarrow> ('k, 'v) alist" where
  "dict_set d k v = DAList.update k v d"

subsection \<open>The parser\<close>

definition LOGIN_FAILED :: ustr where
  "LOGIN_FAILED = str ''LOGIN_FAILED''"

text \<open>
  One iteration of the loop of \<open>load_failed_attempts\<close> on the state
  \<open>(failed_attempts, total_lines, total_failed)\<close>. Both \<open>continue\<close> branches leave the
  loop body with only \<open>total_lines\<close> changed; the indices 2 and 3 are read only when
  there are at least four fields.
\<close>

definition process_line ::
  "(codepoint \<Rightarrow> ustr) \<Rightarrow> ustr \<Rightarrow> tally \<times> int \<times> int \<Rightarrow> tally \<times> int \<times> int" where
  "process_line uc line st =
     (case st of (failed_attempts, total_lines, total_failed) \<Rightarrow>
        let total_lines = total_lines + 1;
            line = strip line
        in if line = [] then (failed_attempts, total_lines, total_failed)
           else
             let parts = split line
             in if length parts < 4 then (failed_attempts, total_lines, total_failed)
                else
                  let user = parts ! 2;
                      event = upper uc (parts ! 3)
                  in if event = LOGIN_FAILED
                     then (dict_set failed_attempts user (dict_get failed_attempts user 0 + 1),
                           total_lines, total_failed + 1)
                     else (failed_attempts, total_lines, total_failed))"

text \<open>
  \<open>load_failed_attempts\<close> on the lines that iterating over the opened file yields, in
  order. The result is \<open>(failed_attempts, total_lines, total_failed)\<close>.
\<close>

definition load_failed_attempts :: "(codepoint \<Rightarrow> ustr) \<Rightarrow> ustr list \<Rightarrow> tally \<times> int \<times> int" where
  "load_failed_attempts uc lines = fold (process_line uc) lines (DAList.empty, 0, 0)"

subsection \<open>The filter\<close>

text \<open>
  The dictionary comprehension of \<open>find_suspicious_users\<close>: the items of the tally are
  visited in order and each one whose count reaches the threshold is stored in a new
  dictionary.
\<close>

definition find_suspicious_users :: "tally \<Rightarrow> int \<Rightarrow> tally" where
  "find_suspicious_users failed_attempts threshold =
     fold (\<lambda>(user, count) d. dict_set d user count)
       (filter (\<lambda>(user, count). count \<ge> threshold) (items failed_attempts)) DAList.empty"

subsection \<open>The reporter\<close>

text \<open>
  A \<open>pathlib.Path\<close> is kept as the string it was made from. What the program prints is
  modelled as the list of its output lines, one constructor for each \<open>print\<close> call of
  the source, holding the values that the call formats.
\<close>

datatype path = Path ustr

datatype out_line =
    Banner
  | LogFile path
  | TotalLines int
  | TotalFailed int
  | UsersWithFailure nat
  | ThresholdLine int
  | NoSuspicious
  | SuspiciousHeader
  | UserLine ustr int
  | InvalidThreshold ustr int
  | LogNotFound path

text \<open>
  \<open>sorted(xs, key=key, reverse=True)\<close>: the list is reversed, sorted by a stable
  ascending sort and reversed again, so that entries with equal keys keep the order they
  had in \<open>xs\<close>.
\<close>

definition sorted_reverse :: "('a \<Rightarrow> int) \<Rightarrow> 'a list \<Rightarrow> 'a list" where
  "sorted_reverse key xs = rev (sort_key key (rev xs))"

definition print_summary :: "path \<Rightarrow> tally \<Rightarrow> int \<Rightarrow> int \<Rightarrow> int \<Rightarrow> out_line list" where
  "print_summary log_path failed_attempts total_lines total_failed threshold =
     (let suspicious = find_suspicious_users failed_attempts threshold
      in [Banner, LogFile log_path, TotalLines total_lines, TotalFailed total_failed,
          UsersWithFailure (length (items failed_attempts)), ThresholdLine threshold] @
         (if items suspicious = [] then [NoSuspicious]
          else SuspiciousHeader #
               map (\<lambda>(user, count). UserLine user count)
                 (sorted_reverse (\<lambda>x. snd x) (items suspicious))))"

text \<open>The users listed by a report, in the order of their lines.\<close>

fun listed_users :: "out_line list \<Rightarrow> (ustr \<times> int) list" where
  "listed_users [] = []"
| "listed_users (UserLine user n # out) = (user, n) # listed_users out"
| "listed_users (_ # out) = listed_users out"

subsection \<open>Command line arguments\<close>

definition DEFAULT_LOG_FILE :: path where
  "DEFAULT_LOG_FILE = Path (str ''logs/auth.log'')"

definition DEFAULT_FAILED_THRESHOLD :: int where
  "DEFAULT_FAILED_THRESHOLD = 5"

text \<open>
  \<open>parse_args\<close> returns \<open>(log_path, threshold)\<close>; the model returns the printed lines
  with it. The built-in \<open>int\<close> is the parameter \<open>py_int\<close>, with \<open>None\<close> where
  \<open>int\<close> raises \<open>ValueError\<close>, which is the only exception the source catches.
  \<open>argv[1]\<close> and \<open>argv[2]\<close> are read only behind the length checks.
\<close>

definition parse_args :: "(ustr \<Rightarrow> int option) \<Rightarrow> ustr list \<Rightarrow> (path \<times> int) \<times> out_line list" where
  "parse_args py_int argv =
     (let log_path = (if length argv \<ge> 2 then Path (argv ! 1) else DEFAULT_LOG_FILE)
      in if length argv \<ge> 3
         then (case py_int (argv ! 2) of
                 Some threshold \<Rightarrow> ((log_path, threshold), [])
               | None \<Rightarrow>
                   ((log_path, DEFAULT_FAILED_THRESHOLD),
                    [InvalidThreshold (argv ! 2) DEFAULT_FAILED_THRESHOLD]))
         else ((log_path, DEFAULT_FAILED_THRESHOLD), []))"

subsection \<open>The program\<close>

text \<open>
  \<open>main\<close> reads the file system; \<open>fs\<close> tells for a path whether it does not exist,
  exists but cannot be opened or read to its end as UTF-8 text, or holds a list of lines.
  The result is the list of printed lines and the way the run ends: \<open>main\<close> returns,
  calls \<open>sys.exit\<close>, or the exception of \<open>load_failed_attempts\<close> leaves it uncaught.
\<close>

datatype log_file = Missing | Unreadable | Readable "ustr list"

datatype outcome = Returned | SysExit int | Raised

definition main ::
  "(ustr \<Rightarrow> int option) \<Rightarrow> (codepoint \<Rightarrow> ustr) \<Rightarrow> (path \<Rightarrow> log_file) \<Rightarrow> ustr list \<Rightarrow>
   out_line list \<times> outcome" where
  "main py_int uc fs argv =
     (case parse_args py_int argv of
        ((log_path, threshold), out) \<Rightarrow>
          (case fs log_path of
             Missing \<Rightarrow> (out @ [LogNotFound log_path], SysExit 1)
           | Unreadable \<Rightarrow> (out, Raised)
           | Readable lines \<Rightarrow>
               (case load_failed_attempts uc lines of
                  (failed_attempts, total_lines, total_failed) \<Rightarrow>
                    (out @ print_summary log_path failed_attempts total_lines total_failed
                       threshold,
                     Returned))))"

subsection \<open>Scenario A\<close>

text \<open>
  The six lines of Scenario A, without their line terminators. Read from a file, every
  line but possibly the last one ends with the newline character, code point 10.
\<close>

definition scenario_A :: "ustr list" where
  "scenario_A =
     [str ''2025-11-10 17:33:04 alice LOGIN_FAILED'',
      str ''2025-11-10 17:33:10 alice LOGIN_FAILED'',
      str ''2025-11-10 17:33:20 bob LOGIN_SUCCESS'',
      [],
      str ''malformed line'',
      str ''2025-11-10 17:34:00 alice login_failed'']"

definition with_newline :: "ustr \<Rightarrow> ustr" where
  "with_newline line = line @ [10]"

text \<open>The dictionary \<open>{"alice": n}\<close>.\<close>

definition alice_tally :: "int \<Rightarrow> tally" where
  "alice_tally n = dict_set DAList.empty (str ''alice'') n"

text \<open>
  A tally with a tie: \<open>{"bob": 2, "alice": 3, "carol": 3, "dave": 1}\<close>, the keys in
  this order of insertion.
\<close>

definition sample_tally :: tally where
  "sample_tally =
     dict_set (dict_set (dict_set (dict_set DAList.empty (str ''bob'') 2) (str ''alice'') 3)
       (str ''carol'') 3) (str ''dave'') 1"

text \<open>
  An instance of the parameter \<open>py_int\<close> for the examples: it reads the string \<open>7\<close>
  and rejects every other string.
\<close>

definition sample_int :: "ustr \<Rightarrow> int option" where
  "sample_int s = (if s = str ''7'' then Some 7 else None)"

section \<open>Auxiliary facts\<close>

subsection \<open>Dictionaries\<close>

lemma items_empty: "items DAList.empty = []"
  by (simp add: items_def empty.rep_eq)

lemma items_dict_set: "items (dict_set d k v) = AList.update k v (items d)"
  by (simp add: items_def dict_set_def update.rep_eq)

lemma dict_get_items: "dict_get d k v = (case map_of (items d) k of None \<Rightarrow> v | Some w \<Rightarrow> w)"
  by (simp add: items_def dict_get_def lookup.rep_eq)

lemma items_distinct: "distinct (map fst (items d))"
  by (simp add: items_def)

lemma items_inject: "items d = items e \<Longrightarrow> d = e"
  by (simp add: items_def alist_ext)

lemma update_fresh: "k \<notin> fst ` set xs \<Longrightarrow> AList.update k v xs = xs @ [(k, v)]"
  by (induction xs) auto

lemma fold_update_fresh:
  "distinct (map fst (acc @ xs)) \<Longrightarrow>
   fold (\<lambda>(k, v) l. AList.update k v l) xs acc = acc @ xs"
proof (induction xs arbitrary: acc)
  case Nil
  then show ?case by simp
next
  case (Cons p xs)
  obtain k v where p: "p = (k, v)" by (cases p)
  from Cons.prems p have fresh: "k \<notin> fst ` set acc" by auto
  from Cons.prems p have "distinct (map fst ((acc @ [(k, v)]) @ xs))" by simp
  then have "fold (\<lambda>(k, v) l. AList.update k v l) xs (acc @ [(k, v)]) = (acc @ [(k, v)]) @ xs"
    by (rule Cons.IH)
  with fresh p show ?case by (simp add: update_fresh)
qed

lemma items_fold_dict_set:
  "items (fold (\<lambda>(k, v) d. dict_set d k v) xs d) =
   fold (\<lambda>(k, v) l. AList.update k v l) xs (items d)"
  by (induction xs arbitrary: d) (auto simp: items_dict_set)

lemma items_find_suspicious_users:
  "items (find_suspicious_users failed_attempts threshold) =
   filter (\<lambda>(user, n). threshold \<le> n) (items failed_attempts)"
proof -
  have "distinct (map fst (filter (\<lambda>(user, n). threshold \<le> n) (items failed_attempts)))"
    by (rule distinct_map_fst_filter) (rule items_distinct)
  then show ?thesis
    using fold_update_fresh [of "[]" "filter (\<lambda>(user, n). threshold \<le> n) (items failed_attempts)"]
    by (simp add: find_suspicious_users_def items_fold_dict_set items_empty)
qed

lemma sum_update:
  "sum_list (map snd (AList.update k v xs)) =
   sum_list (map snd xs) - (case map_of xs k of None \<Rightarrow> 0 | Some c \<Rightarrow> c) + (v::int)"
  by (induction xs) auto

lemma set_update_subset: "set (AList.update k v xs) \<subseteq> insert (k, v) (set xs)"
  by (induction xs) auto

lemma length_le_sum:
  "\<forall>e\<in>set xs. 1 \<le> snd e \<Longrightarrow> int (length xs) \<le> sum_list (map snd xs)"
  by (induction xs) auto

subsection \<open>Splitting\<close>

lemma split_Nil: "split [] = []"
  by (simp add: split.simps)

lemma split_space: "is_space c \<Longrightarrow> split (c # s) = split s"
  by (simp add: split.simps [of "c # s"] split.simps [of s])

lemma split_nonspace:
  "\<not> is_space c \<Longrightarrow>
   split (c # s) =
     (c # takeWhile (\<lambda>c. \<not> is_space c) s) # split (dropWhile (\<lambda>c. \<not> is_space c) s)"
  by (simp add: split.simps [of "c # s"])

lemma split_dropWhile: "split (dropWhile is_space s) = split s"
  by (simp add: split.simps [of "dropWhile is_space s"] split.simps [of s])

lemma split_spaces: "\<forall>c\<in>set w. is_space c \<Longrightarrow> split w = []"
  by (induction w) (simp_all add: split_Nil split_space)

lemma split_unfold_Nil: "dropWhile is_space s = [] \<Longrightarrow> split s = []"
  by (simp add: split.simps [of s])

lemma split_unfold:
  "dropWhile is_space s = r \<Longrightarrow> r \<noteq> [] \<Longrightarrow>
   split s = takeWhile (\<lambda>c. \<not> is_space c) r # split (dropWhile (\<lambda>c. \<not> is_space c) r)"
  by (simp add: split.simps [of s])

lemma split_append_spaces: "\<forall>c\<in>set w. is_space c \<Longrightarrow> split (s @ w) = split s"
proof (induction s rule: split.induct)
  case (1 s)
  let ?r = "dropWhile is_space s"
  let ?ns = "\<lambda>c. \<not> is_space c"
  show ?case
  proof (cases "?r = []")
    case True
    then have "\<forall>c\<in>set s. is_space c"
      by simp
    with "1.prems" have "split (s @ w) = []" "split s = []"
      by (auto intro!: split_spaces)
    then show ?thesis by simp
  next
    case False
    then obtain x where x: "x \<in> set s" "\<not> is_space x"
      by auto
    then have dw: "dropWhile is_space (s @ w) = ?r @ w"
      by auto
    from False have ne: "?r @ w \<noteq> []" by simp
    have L: "split (s @ w) = takeWhile ?ns (?r @ w) # split (dropWhile ?ns (?r @ w))"
      by (rule split_unfold [OF dw ne])
    have R: "split s = takeWhile ?ns ?r # split (dropWhile ?ns ?r)"
      by (rule split_unfold [OF refl False])
    show ?thesis
    proof (cases "\<forall>c\<in>set ?r. \<not> is_space c")
      case True
      have tkw: "takeWhile ?ns w = []" "dropWhile ?ns w = w"
        using "1.prems" by (cases w; simp)+
      from True have "takeWhile ?ns (?r @ w) = ?r" "dropWhile ?ns (?r @ w) = w"
        "takeWhile ?ns ?r = ?r" "dropWhile ?ns ?r = []"
        by (simp_all add: tkw)
      with L R "1.prems" show ?thesis
        by (simp add: split_spaces split_Nil)
    next
      case nall: False
      then obtain y where y: "y \<in> set ?r" "is_space y" by auto
      then have "takeWhile ?ns (?r @ w) = takeWhile ?ns ?r"
        "dropWhile ?ns (?r @ w) = dropWhile ?ns ?r @ w"
        by auto
      moreover have "split (dropWhile ?ns ?r @ w) = split (dropWhile ?ns ?r)"
        using "1.IH" [OF refl False] "1.prems" by simp
      ultimately show ?thesis using L R by simp
    qed
  qed
qed

lemma strip_decomp:
  "\<exists>w. (\<forall>c\<in>set w. is_space c) \<and> dropWhile is_space s = strip s @ w"
proof -
  let ?t = "dropWhile is_space s"
  have "rev (takeWhile is_space (rev ?t) @ dropWhile is_space (rev ?t)) = ?t"
    by (simp only: takeWhile_dropWhile_id rev_rev_ident)
  then have "?t = strip s @ rev (takeWhile is_space (rev ?t))"
    by (simp only: rev_append strip_def)
  moreover have "\<forall>c\<in>set (rev (takeWhile is_space (rev ?t))). is_space c"
    by (auto dest: set_takeWhileD)
  ultimately show ?thesis by blast
qed

lemma split_strip: "split (strip s) = split s"
proof -
  obtain w where w: "\<forall>c\<in>set w. is_space c" "dropWhile is_space s = strip s @ w"
    using strip_decomp by blast
  have "split s = split (dropWhile is_space s)" by (simp add: split_dropWhile)
  also have "\<dots> = split (strip s)" using w by (simp add: split_append_spaces)
  finally show ?thesis by simp
qed

lemma strip_Nil_split: "strip s = [] \<Longrightarrow> split s = []"
  using split_strip [of s] by (simp add: split_Nil)

lemma last_dropWhile_ne: "dropWhile P xs \<noteq> [] \<Longrightarrow> last (dropWhile P xs) = last xs"
proof -
  assume ne: "dropWhile P xs \<noteq> []"
  have "last (takeWhile P xs @ dropWhile P xs) = last (dropWhile P xs)"
    using ne by (simp only: last_append if_False)
  then show ?thesis by simp
qed

lemma split_token:
  assumes tok: "tok \<noteq> []" "\<forall>c\<in>set tok. \<not> is_space c"
    and b: "b = [] \<or> is_space (hd b)"
  shows "a = [] \<or> is_space (last a) \<Longrightarrow> split (a @ tok @ b) = split a @ tok # split b"
proof (induction a rule: split.induct)
  case (1 a)
  let ?r = "dropWhile is_space a"
  let ?ns = "\<lambda>c. \<not> is_space c"
  from tok have hd_tok: "\<not> is_space (hd tok)" by (cases tok) simp_all
  from b have tkb: "takeWhile ?ns b = []" "dropWhile ?ns b = b"
    by (cases b; simp)+
  from tok have tb: "takeWhile ?ns (tok @ b) = tok" "dropWhile ?ns (tok @ b) = b"
    by (simp_all add: tkb)
  from tok hd_tok have dtb: "dropWhile is_space (tok @ b) = tok @ b"
    by (cases tok) simp_all
  show ?case
  proof (cases "?r = []")
    case True
    then have all: "\<forall>c\<in>set a. is_space c"
      by simp
    then have "dropWhile is_space (a @ tok @ b) = tok @ b"
      by (simp add: dtb)
    moreover from tok have "tok @ b \<noteq> []" by simp
    ultimately have "split (a @ tok @ b) = takeWhile ?ns (tok @ b) # split (dropWhile ?ns (tok @ b))"
      by (rule split_unfold)
    with all show ?thesis by (simp add: tb split_spaces)
  next
    case False
    then have a_ne: "a \<noteq> []" by auto
    with "1.prems" have "is_space (last a)" by simp
    with False have sp: "is_space (last ?r)" by (simp add: last_dropWhile_ne)
    from False have in_r: "last ?r \<in> set ?r" by simp
    from False obtain x where x: "x \<in> set a" "\<not> is_space x"
      by auto
    then have dw: "dropWhile is_space (a @ tok @ b) = ?r @ tok @ b"
      by simp
    from False have ne: "?r @ tok @ b \<noteq> []" by simp
    have L: "split (a @ tok @ b) =
        takeWhile ?ns (?r @ tok @ b) # split (dropWhile ?ns (?r @ tok @ b))"
      by (rule split_unfold [OF dw ne])
    have R: "split a = takeWhile ?ns ?r # split (dropWhile ?ns ?r)"
      by (rule split_unfold [OF refl False])
    from in_r sp have tk: "takeWhile ?ns (?r @ tok @ b) = takeWhile ?ns ?r"
      and dr: "dropWhile ?ns (?r @ tok @ b) = dropWhile ?ns ?r @ tok @ b"
      by simp_all
    from in_r sp have r'_ne: "dropWhile ?ns ?r \<noteq> []"
      by auto
    then have "is_space (last (dropWhile ?ns ?r))"
      using sp by (simp add: last_dropWhile_ne)
    then have "split (dropWhile ?ns ?r @ tok @ b) = split (dropWhile ?ns ?r) @ tok # split b"
      using "1.IH" [OF refl False] by simp
    with L R tk dr show ?thesis by simp
  qed
qed

subsection \<open>The parser loop\<close>

lemma process_line_parts:
  "process_line uc line (fa, nl, nf) =
     (let parts = split line
      in if length parts < 4 then (fa, nl + 1, nf)
         else if upper uc (parts ! 3) = LOGIN_FAILED
              then (dict_set fa (parts ! 2) (dict_get fa (parts ! 2) 0 + 1), nl + 1, nf + 1)
              else (fa, nl + 1, nf))"
proof (cases "strip line = []")
  case True
  then have "split line = []" by (rule strip_Nil_split)
  with True show ?thesis by (simp add: process_line_def)
next
  case False
  then show ?thesis by (simp add: process_line_def split_strip Let_def)
qed

lemma process_line_inv:
  assumes "process_line uc line (fa, nl, nf) = (fa', nl', nf')"
    and "sum_list (map snd (items fa)) = nf"
    and "\<forall>e\<in>set (items fa). 1 \<le> snd e"
    and "nf \<le> nl"
  shows "sum_list (map snd (items fa')) = nf' \<and> (\<forall>e\<in>set (items fa'). 1 \<le> snd e) \<and> nf' \<le> nl'"
proof (cases "4 \<le> length (split line) \<and> upper uc (split line ! 3) = LOGIN_FAILED")
  case False
  with assms show ?thesis
    by (auto simp: process_line_parts Let_def split: if_splits)
next
  case True
  let ?u = "split line ! 2"
  let ?v = "dict_get fa ?u 0 + 1"
  from True assms(1) have eq: "fa' = dict_set fa ?u ?v" "nl' = nl + 1" "nf' = nf + 1"
    by (simp_all add: process_line_parts Let_def)
  have v: "?v = (case map_of (items fa) ?u of None \<Rightarrow> 0 | Some c \<Rightarrow> c) + 1"
    by (simp add: dict_get_items)
  have "sum_list (map snd (items fa')) = nf'"
    using assms(2) by (simp add: eq items_dict_set sum_update v)
  moreover have "1 \<le> ?v"
  proof (cases "map_of (items fa) ?u")
    case None
    then show ?thesis by (simp add: v)
  next
    case (Some c)
    then have "(?u, c) \<in> set (items fa)" by (rule map_of_SomeD)
    with assms(3) have "1 \<le> c" by fastforce
    with Some show ?thesis by (simp add: v)
  qed
  then have "\<forall>e\<in>set (items fa'). 1 \<le> snd e"
    using assms(3) set_update_subset [of ?u ?v "items fa"]
    by (auto simp: eq items_dict_set)
  moreover have "nf' \<le> nl'" using assms(4) by (simp add: eq)
  ultimately show ?thesis by simp
qed

lemma fold_process_line_inv:
  "fold (process_line uc) lines (fa, nl, nf) = (fa', nl', nf') \<Longrightarrow>
   sum_list (map snd (items fa)) = nf \<Longrightarrow> \<forall>e\<in>set (items fa). 1 \<le> snd e \<Longrightarrow> nf \<le> nl \<Longrightarrow>
   sum_list (map snd (items fa')) = nf' \<and> (\<forall>e\<in>set (items fa'). 1 \<le> snd e) \<and> nf' \<le> nl'"
proof (induction lines arbitrary: fa nl nf)
  case Nil
  then show ?case by simp
next
  case (Cons line lines)
  obtain fa1 nl1 nf1 where step: "process_line uc line (fa, nl, nf) = (fa1, nl1, nf1)"
    by (cases "process_line uc line (fa, nl, nf)")
  from process_line_inv [OF step Cons.prems(2,3,4)]
  have inv1: "sum_list (map snd (items fa1)) = nf1" "\<forall>e\<in>set (items fa1). 1 \<le> snd e" "nf1 \<le> nl1"
    by simp_all
  from Cons.prems(1) step have "fold (process_line uc) lines (fa1, nl1, nf1) = (fa', nl', nf')"
    by simp
  then show ?case using inv1 by (rule Cons.IH)
qed

lemma load_failed_attempts_inv:
  "load_failed_attempts uc lines = (fa, nl, nf) \<Longrightarrow>
   sum_list (map snd (items fa)) = nf \<and> (\<forall>e\<in>set (items fa). 1 \<le> snd e) \<and> nf \<le> nl"
  unfolding load_failed_attempts_def
  by (erule fold_process_line_inv) (simp_all add: items_empty)

text \<open>Every tally that the parser returns has counts that are not negative.\<close>

lemma load_failed_attempts_nonneg:
  "load_failed_attempts uc lines = (fa, nl, nf) \<Longrightarrow> \<forall>(user, n)\<in>set (items fa). 0 \<le> n"
  by (drule load_failed_attempts_inv) fastforce

subsection \<open>Evaluation on concrete inputs\<close>

lemmas eval_simps =
  str_def is_space_def strip_def split_Nil split_space split_nonspace upper_def upper_char_def
  LOGIN_FAILED_def process_line_def Let_def dict_set_def dict_get_def with_newline_def

lemma scenario_A_result:
  "load_failed_attempts uc scenario_A = (alice_tally 3, 6, 3)"
  by (simp add: load_failed_attempts_def scenario_A_def alice_tally_def eval_simps)

lemma scenario_A_newline_result:
  "load_failed_attempts uc (map with_newline scenario_A) = (alice_tally 3, 6, 3)"
  by (simp add: load_failed_attempts_def scenario_A_def alice_tally_def eval_simps)

lemma items_alice_tally: "items (alice_tally n) = [(str ''alice'', n)]"
  by (simp add: alice_tally_def items_dict_set items_empty)

lemma items_sample_tally:
  "items sample_tally =
     [(str ''bob'', 2), (str ''alice'', 3), (str ''carol'', 3), (str ''dave'', 1)]"
  by (simp add: sample_tally_def items_dict_set items_empty str_def)

subsection \<open>The event kind\<close>

lemma upper_variants:
  "e \<in> {str ''login_failed'', str ''Login_Failed'', str ''LOGIN_FAILED''} \<Longrightarrow>
   upper uc e = LOGIN_FAILED"
  by (auto simp: str_def upper_def upper_char_def LOGIN_FAILED_def)

lemma variants_token:
  "e \<in> {str ''login_failed'', str ''Login_Failed'', str ''LOGIN_FAILED''} \<Longrightarrow>
   e \<noteq> [] \<and> (\<forall>c\<in>set e. \<not> is_space c)"
  by (auto simp: str_def is_space_def)

lemma process_line_failed_event:
  assumes e: "e \<in> {str ''login_failed'', str ''Login_Failed'', str ''LOGIN_FAILED''}"
    and a: "length (split a) = 3" "is_space (last a)"
    and b: "b = [] \<or> is_space (hd b)"
  shows "process_line uc (a @ e @ b) (fa, nl, nf) =
    (dict_set fa (split a ! 2) (dict_get fa (split a ! 2) 0 + 1), nl + 1, nf + 1)"
proof -
  from e have tok: "e \<noteq> []" "\<forall>c\<in>set e. \<not> is_space c"
    using variants_token by blast+
  from a(2) have "a = [] \<or> is_space (last a)" by simp
  with tok b have sp: "split (a @ e @ b) = split a @ e # split b"
    by (rule split_token)
  with a(1) have "length (split (a @ e @ b)) \<ge> 4" "split (a @ e @ b) ! 3 = e"
    "split (a @ e @ b) ! 2 = split a ! 2"
    by (simp_all add: nth_append)
  with e show ?thesis
    by (simp add: process_line_parts upper_variants)
qed

subsection \<open>The listing of the report\<close>

lemma listed_users_map: "listed_users (map (\<lambda>(user, n). UserLine user n) xs) = xs"
  by (induction xs) auto

lemma listed_users_print_summary:
  "listed_users (print_summary log_path failed_attempts total_lines total_failed threshold) =
   sorted_reverse (\<lambda>x. snd x) (items (find_suspicious_users failed_attempts threshold))"
  by (simp add: print_summary_def Let_def listed_users_map sorted_reverse_def)

lemma sorted_reverse_descending:
  "sorted_wrt (\<lambda>x y. key y \<le> key x) (sorted_reverse key xs)"
proof -
  have "sorted (map key (sort_key key (rev xs)))" by (rule sorted_sort_key)
  then have "sorted_wrt (\<lambda>x y. key x \<le> key y) (sort_key key (rev xs))"
    by (simp only: sorted_map)
  then show ?thesis by (simp add: sorted_reverse_def sorted_wrt_rev)
qed

lemma sorted_reverse_stable:
  "filter (\<lambda>e. key e = k) (sorted_reverse key xs) = filter (\<lambda>e. key e = k) xs"
  by (simp add: sorted_reverse_def rev_filter [symmetric] sort_key_stable)

lemma mset_sorted_reverse: "mset (sorted_reverse key xs) = mset xs"
  by (simp add: sorted_reverse_def)

section \<open>The claims\<close>

text \<open>
  C1 (conservation). For every sequence of input lines, the \<open>total_failed\<close> that the
  parser returns is the sum of all counts of the tally it returns.
\<close>

theorem total_failed_conservation:
  "load_failed_attempts uc lines = (failed_attempts, total_lines, total_failed) \<Longrightarrow>
   total_failed = sum_list (map snd (items failed_attempts))"
  by (drule load_failed_attempts_inv) simp

theorem total_failed_conservation_witness:
  "load_failed_attempts (\<lambda>c. [c]) scenario_A = (alice_tally 3, 6, 3) \<and>
   (3::int) = sum_list (map snd (items (alice_tally 3)))"
proof -
  have h: "load_failed_attempts (\<lambda>c. [c]) scenario_A = (alice_tally 3, 6, 3)"
    by (rule scenario_A_result)
  show ?thesis using h total_failed_conservation [OF h] by simp
qed

text \<open>
  C2 (Scenario A). On the six lines of Scenario A the parser returns \<open>total_lines = 6\<close>,
  \<open>total_failed = 3\<close> and the tally \<open>{alice: 3}\<close>; the filter keeps \<open>{alice: 3}\<close> at
  threshold 3 and nothing at threshold 4. This holds for the lines as they are written
  and for the lines each followed by its newline character, whatever the upper-case
  table beyond ASCII is.
\<close>

theorem scenario_A_expected:
  "(case load_failed_attempts uc scenario_A of
      (failed_attempts, total_lines, total_failed) \<Rightarrow>
        (items failed_attempts, total_lines, total_failed,
         items (find_suspicious_users failed_attempts 3),
         items (find_suspicious_users failed_attempts 4))) =
   ([(str ''alice'', 3)], 6, 3, [(str ''alice'', 3)], []) \<and>
   (case load_failed_attempts uc (map with_newline scenario_A) of
      (failed_attempts, total_lines, total_failed) \<Rightarrow>
        (items failed_attempts, total_lines, total_failed,
         items (find_suspicious_users failed_attempts 3),
         items (find_suspicious_users failed_attempts 4))) =
   ([(str ''alice'', 3)], 6, 3, [(str ''alice'', 3)], [])"
  by (simp add: scenario_A_result scenario_A_newline_result items_alice_tally
      items_find_suspicious_users)

theorem scenario_A_expected_witness:
  "(case load_failed_attempts (\<lambda>c. [c]) scenario_A of
      (failed_attempts, total_lines, total_failed) \<Rightarrow>
        (items failed_attempts, total_lines, total_failed,
         items (find_suspicious_users failed_attempts 3),
         items (find_suspicious_users failed_attempts 4))) =
   ([(str ''alice'', 3)], 6, 3, [(str ''alice'', 3)], [])"
  using scenario_A_expected [of "\<lambda>c. [c]"] by blast

text \<open>
  C3 (filter monotonicity). For every tally and thresholds \<open>t1 \<le> t2\<close>, every entry of
  the suspicious set for \<open>t2\<close> is an entry of the suspicious set for \<open>t1\<close>.
\<close>

theorem filter_monotone:
  "t1 \<le> t2 \<Longrightarrow>
   set (items (find_suspicious_users tally t2)) \<subseteq> set (items (find_suspicious_users tally t1))"
  by (auto simp: items_find_suspicious_users)

theorem filter_monotone_witness:
  "(3::int) \<le> 4 \<and>
   set (items (find_suspicious_users (alice_tally 3) 4)) \<subseteq>
   set (items (find_suspicious_users (alice_tally 3) 3)) \<and>
   items (find_suspicious_users (alice_tally 3) 3) = [(str ''alice'', 3)] \<and>
   items (find_suspicious_users (alice_tally 3) 4) = []"
proof -
  have h: "(3::int) \<le> 4" by simp
  show ?thesis
    using h filter_monotone [OF h, of "alice_tally 3"]
    by (simp add: items_find_suspicious_users items_alice_tally)
qed

text \<open>
  C4 (malformed tolerance). Appending a line with fewer than four whitespace-delimited
  fields, a blank or whitespace-only line included, leaves the returned tally and
  \<open>total_failed\<close> as they were and makes \<open>total_lines\<close> exactly one larger.
\<close>

theorem short_line_ignored:
  "length (split line) < 4 \<Longrightarrow>
   load_failed_attempts uc lines = (failed_attempts, total_lines, total_failed) \<Longrightarrow>
   load_failed_attempts uc (lines @ [line]) = (failed_attempts, total_lines + 1, total_failed)"
  by (simp add: load_failed_attempts_def process_line_parts)

theorem short_line_ignored_witness:
  "length (split (str ''malformed line'')) < 4 \<and>
   load_failed_attempts (\<lambda>c. [c]) scenario_A = (alice_tally 3, 6, 3) \<and>
   load_failed_attempts (\<lambda>c. [c]) (scenario_A @ [str ''malformed line'']) =
     (alice_tally 3, 6 + 1, 3)"
proof -
  have h1: "length (split (str ''malformed line'')) < 4"
    by (simp add: eval_simps)
  have h2: "load_failed_attempts (\<lambda>c. [c]) scenario_A = (alice_tally 3, 6, 3)"
    by (rule scenario_A_result)
  show ?thesis using h1 h2 short_line_ignored [OF h1 h2] by simp
qed

text \<open>
  C5 (case-insensitivity). Take a line \<open>a @ e @ b\<close> whose fourth field is \<open>e\<close>: the
  text \<open>a\<close> before it holds three fields and ends with whitespace, the text \<open>b\<close> behind
  it is empty or starts with whitespace. Whichever of \<open>login_failed\<close>, \<open>Login_Failed\<close>
  and \<open>LOGIN_FAILED\<close> stands for \<open>e\<close>, in an input that is otherwise the same, the
  parser returns the same tally, \<open>total_lines\<close> and \<open>total_failed\<close>.
\<close>

theorem event_kind_case_insensitive:
  assumes "e1 \<in> {str ''login_failed'', str ''Login_Failed'', str ''LOGIN_FAILED''}"
    and "e2 \<in> {str ''login_failed'', str ''Login_Failed'', str ''LOGIN_FAILED''}"
    and "length (split a) = 3" and "is_space (last a)"
    and "b = [] \<or> is_space (hd b)"
  shows "load_failed_attempts uc (before @ (a @ e1 @ b) # after) =
         load_failed_attempts uc (before @ (a @ e2 @ b) # after)"
proof -
  obtain fa nl nf where st: "fold (process_line uc) before (DAList.empty, 0, 0) = (fa, nl, nf)"
    by (cases "fold (process_line uc) before (DAList.empty, 0, 0)")
  have "process_line uc (a @ e1 @ b) (fa, nl, nf) = process_line uc (a @ e2 @ b) (fa, nl, nf)"
    using assms by (simp add: process_line_failed_event)
  with st show ?thesis by (simp add: load_failed_attempts_def)
qed

theorem event_kind_case_insensitive_witness:
  "str ''login_failed'' \<in> {str ''login_failed'', str ''Login_Failed'', str ''LOGIN_FAILED''} \<and>
   str ''Login_Failed'' \<in> {str ''login_failed'', str ''Login_Failed'', str ''LOGIN_FAILED''} \<and>
   length (split (str ''2025-11-10 17:34:00 alice '')) = 3 \<and>
   is_space (last (str ''2025-11-10 17:34:00 alice '')) \<and>
   (with_newline [] = [] \<or> is_space (hd (with_newline []))) \<and>
   load_failed_attempts (\<lambda>c. [c])
     ([] @ (str ''2025-11-10 17:34:00 alice '' @ str ''login_failed'' @ with_newline []) # []) =
   load_failed_attempts (\<lambda>c. [c])
     ([] @ (str ''2025-11-10 17:34:00 alice '' @ str ''Login_Failed'' @ with_newline []) # []) \<and>
   load_failed_attempts (\<lambda>c. [c])
     ([] @ (str ''2025-11-10 17:34:00 alice '' @ str ''login_failed'' @ with_newline []) # []) =
   (alice_tally 1, 1, 1)"
proof -
  let ?V = "{str ''login_failed'', str ''Login_Failed'', str ''LOGIN_FAILED''}"
  have h1: "str ''login_failed'' \<in> ?V" by simp
  have h2: "str ''Login_Failed'' \<in> ?V" by simp
  have h3: "length (split (str ''2025-11-10 17:34:00 alice '')) = 3"
    by (simp add: eval_simps)
  have h4: "is_space (last (str ''2025-11-10 17:34:00 alice ''))"
    by (simp add: str_def is_space_def)
  have h5: "with_newline [] = [] \<or> is_space (hd (with_newline []))"
    by (simp add: with_newline_def is_space_def)
  have r: "load_failed_attempts (\<lambda>c. [c])
     ([] @ (str ''2025-11-10 17:34:00 alice '' @ str ''login_failed'' @ with_newline []) # []) =
     (alice_tally 1, 1, 1)"
    by (simp add: load_failed_attempts_def alice_tally_def eval_simps)
  show ?thesis
    using h1 h2 h3 h4 h5 r
      event_kind_case_insensitive [OF h1 h2 h3 h4 h5, of "\<lambda>c. [c]" "[]" "[]"]
    by simp
qed

text \<open>
  C6 (threshold at most zero). For every tally and every threshold \<open>t \<le> 0\<close>, the
  filter returns the entire tally. A tally holds numbers of failures: its counts are not
  negative, which is the hypothesis on the counts here and holds of every tally that the
  parser returns (\<open>load_failed_attempts_nonneg\<close>).
\<close>

theorem nonpositive_threshold_keeps_all:
  "t \<le> 0 \<Longrightarrow> \<forall>(user, n)\<in>set (items tally). 0 \<le> n \<Longrightarrow> find_suspicious_users tally t = tally"
proof (rule items_inject)
  assume "t \<le> 0" "\<forall>(user, n)\<in>set (items tally). 0 \<le> n"
  then have "\<forall>e\<in>set (items tally). (\<lambda>(user, n). t \<le> n) e" by fastforce
  then show "items (find_suspicious_users tally t) = items tally"
    by (simp add: items_find_suspicious_users)
qed

theorem nonpositive_threshold_keeps_all_witness:
  "(- 2::int) \<le> 0 \<and> list_all (\<lambda>(user, n). 0 \<le> n) (items sample_tally) \<and>
   find_suspicious_users sample_tally (- 2) = sample_tally"
proof -
  have h1: "(- 2::int) \<le> 0" by simp
  have h2: "\<forall>(user, n)\<in>set (items sample_tally). 0 \<le> n"
    by (simp add: items_sample_tally)
  show ?thesis
    using h1 h2 nonpositive_threshold_keeps_all [OF h1 h2] by (simp add: list_all_iff)
qed

text \<open>
  C7 (invalid threshold argument). When a threshold argument is given and \<open>int\<close> rejects
  it, \<open>parse_args\<close> still returns: it prints the diagnostic and returns the default
  threshold 5 with the log path, the same pair that it returns when no threshold argument
  is given, and the run of \<open>main\<close> is the run without a threshold argument behind the
  diagnostic line. A threshold argument that \<open>int\<close> accepts is returned as the number
  read.
\<close>

theorem invalid_threshold_falls_back:
  assumes "3 \<le> length argv"
  shows "(py_int (argv ! 2) = None \<longrightarrow>
            parse_args py_int argv =
              ((Path (argv ! 1), 5), [InvalidThreshold (argv ! 2) 5]) \<and>
            fst (parse_args py_int argv) = fst (parse_args py_int (take 2 argv)) \<and>
            main py_int uc fs argv =
              (InvalidThreshold (argv ! 2) 5 # fst (main py_int uc fs (take 2 argv)),
               snd (main py_int uc fs (take 2 argv)))) \<and>
         (\<forall>n. py_int (argv ! 2) = Some n \<longrightarrow>
            parse_args py_int argv = ((Path (argv ! 1), n), []))"
  using assms
  by (simp add: main_def parse_args_def DEFAULT_FAILED_THRESHOLD_def
      split: log_file.split prod.split)

theorem invalid_threshold_falls_back_witness:
  "3 \<le> length [str ''anomaly_detector.py'', str ''auth.log'', str ''abc''] \<and>
   sample_int (str ''abc'') = None \<and>
   parse_args sample_int [str ''anomaly_detector.py'', str ''auth.log'', str ''abc''] =
     ((Path (str ''auth.log''), 5), [InvalidThreshold (str ''abc'') 5]) \<and>
   3 \<le> length [str ''anomaly_detector.py'', str ''auth.log'', str ''7''] \<and>
   sample_int (str ''7'') = Some 7 \<and>
   parse_args sample_int [str ''anomaly_detector.py'', str ''auth.log'', str ''7''] =
     ((Path (str ''auth.log''), 7), []) \<and>
   main sample_int (\<lambda>c. [c]) (\<lambda>p. Readable scenario_A)
     [str ''anomaly_detector.py'', str ''auth.log'', str ''abc''] =
     ([InvalidThreshold (str ''abc'') 5, Banner, LogFile (Path (str ''auth.log'')),
       TotalLines 6, TotalFailed 3, UsersWithFailure 1, ThresholdLine 5, NoSuspicious],
      Returned)"
proof -
  let ?bad = "[str ''anomaly_detector.py'', str ''auth.log'', str ''abc'']"
  let ?good = "[str ''anomaly_detector.py'', str ''auth.log'', str ''7'']"
  have h1: "3 \<le> length ?bad" by simp
  have h2: "3 \<le> length ?good" by simp
  have n: "sample_int (str ''abc'') = None" by (simp add: sample_int_def str_def)
  have s: "sample_int (str ''7'') = Some 7" by (simp add: sample_int_def)
  have m: "main sample_int (\<lambda>c. [c]) (\<lambda>p. Readable scenario_A) (take 2 ?bad) =
     ([Banner, LogFile (Path (str ''auth.log'')), TotalLines 6, TotalFailed 3,
       UsersWithFailure 1, ThresholdLine 5, NoSuspicious], Returned)"
    by (simp add: main_def parse_args_def DEFAULT_FAILED_THRESHOLD_def scenario_A_result
        print_summary_def items_find_suspicious_users items_alice_tally)
  show ?thesis
    using n s m
      invalid_threshold_falls_back [OF h1, of sample_int "\<lambda>c. [c]" "\<lambda>p. Readable scenario_A"]
      invalid_threshold_falls_back [OF h2, of sample_int]
    by simp
qed

text \<open>
  C8 (ranked listing). When the suspicious set is not empty, the users that the report
  lists are the entries of the suspicious set, each once, and of any two consecutive
  lines the earlier has a count at least as large as the later. The listing is fixed by
  the tally and the threshold: entries with the same count stand in the order that the
  tally holds them in, and the other arguments of the reporter have no influence.
\<close>

theorem report_sorted_descending:
  assumes "items (find_suspicious_users tally threshold) \<noteq> []"
  shows "(\<forall>i. Suc i < length (listed_users (print_summary log_path tally total_lines total_failed threshold)) \<longrightarrow>
            snd (listed_users (print_summary log_path tally total_lines total_failed threshold) ! Suc i)
            \<le> snd (listed_users (print_summary log_path tally total_lines total_failed threshold) ! i)) \<and>
         mset (listed_users (print_summary log_path tally total_lines total_failed threshold)) =
           mset (items (find_suspicious_users tally threshold)) \<and>
         (\<forall>k. filter (\<lambda>e. snd e = k)
                 (listed_users (print_summary log_path tally total_lines total_failed threshold)) =
               filter (\<lambda>e. snd e = k) (items (find_suspicious_users tally threshold))) \<and>
         listed_users (print_summary log_path tally total_lines total_failed threshold) =
           listed_users (print_summary log_path' tally total_lines' total_failed' threshold)"
proof -
  let ?L = "sorted_reverse (\<lambda>x. snd x) (items (find_suspicious_users tally threshold))"
  have "sorted_wrt (\<lambda>x y. snd y \<le> snd x) ?L" by (rule sorted_reverse_descending)
  then have "\<forall>i. Suc i < length ?L \<longrightarrow> snd (?L ! Suc i) \<le> snd (?L ! i)"
    by (auto intro: sorted_wrt_nth_less)
  then show ?thesis
    by (simp add: listed_users_print_summary mset_sorted_reverse sorted_reverse_stable)
qed

theorem report_sorted_descending_witness:
  "items (find_suspicious_users sample_tally 2) \<noteq> [] \<and>
   listed_users (print_summary DEFAULT_LOG_FILE sample_tally 9 9 2) =
     [(str ''alice'', 3), (str ''carol'', 3), (str ''bob'', 2)] \<and>
   mset (listed_users (print_summary DEFAULT_LOG_FILE sample_tally 9 9 2)) =
     mset (items (find_suspicious_users sample_tally 2)) \<and>
   filter (\<lambda>e. snd e = 3) (listed_users (print_summary DEFAULT_LOG_FILE sample_tally 9 9 2)) =
     filter (\<lambda>e. snd e = 3) (items (find_suspicious_users sample_tally 2))"
proof -
  have h: "items (find_suspicious_users sample_tally 2) \<noteq> []"
    by (simp add: items_find_suspicious_users items_sample_tally)
  have l: "listed_users (print_summary DEFAULT_LOG_FILE sample_tally 9 9 2) =
     [(str ''alice'', 3), (str ''carol'', 3), (str ''bob'', 2)]"
    by (simp add: listed_users_print_summary items_find_suspicious_users items_sample_tally
        sorted_reverse_def)
  show ?thesis
    using h l report_sorted_descending [OF h, of DEFAULT_LOG_FILE 9 9 DEFAULT_LOG_FILE 9 9]
    by blast
qed

text \<open>
  C9 (chain of bounds). For every input, every count in the returned tally is at least
  1, the number of users in the tally is at most \<open>total_failed\<close>, and \<open>total_failed\<close> is
  at most \<open>total_lines\<close>.
\<close>

theorem parser_chain:
  "load_failed_attempts uc lines = (failed_attempts, total_lines, total_failed) \<Longrightarrow>
   (\<forall>(user, n)\<in>set (items failed_attempts). 1 \<le> n) \<and>
   int (length (items failed_attempts)) \<le> total_failed \<and>
   total_failed \<le> total_lines"
proof -
  assume "load_failed_attempts uc lines = (failed_attempts, total_lines, total_failed)"
  then have inv: "sum_list (map snd (items failed_attempts)) = total_failed"
    "\<forall>e\<in>set (items failed_attempts). 1 \<le> snd e" "total_failed \<le> total_lines"
    using load_failed_attempts_inv by blast+
  from inv(2) have "int (length (items failed_attempts)) \<le> sum_list (map snd (items failed_attempts))"
    by (rule length_le_sum)
  with inv show ?thesis by auto
qed

theorem parser_chain_witness:
  "load_failed_attempts (\<lambda>c. [c]) scenario_A = (alice_tally 3, 6, 3) \<and>
   list_all (\<lambda>(user, n). 1 \<le> n) (items (alice_tally 3)) \<and>
   int (length (items (alice_tally 3))) \<le> 3 \<and> (3::int) \<le> 6 \<and>
   items (alice_tally 3) = [(str ''alice'', 3)]"
proof -
  have h: "load_failed_attempts (\<lambda>c. [c]) scenario_A = (alice_tally 3, 6, 3)"
    by (rule scenario_A_result)
  show ?thesis using h parser_chain [OF h] by (simp add: items_alice_tally)
qed

text \<open>
  C10 (idempotence of the filter). For every tally and threshold, filtering the result
  of the filter again with the same threshold changes nothing.
\<close>

theorem filter_idempotent:
  "find_suspicious_users (find_suspicious_users tally t) t = find_suspicious_users tally t"
  by (rule items_inject) (simp add: items_find_suspicious_users)

theorem filter_idempotent_witness:
  "find_suspicious_users (find_suspicious_users sample_tally 2) 2 =
   find_suspicious_users sample_tally 2 \<and>
   items (find_suspicious_users sample_tally 2) =
     [(str ''bob'', 2), (str ''alice'', 3), (str ''carol'', 3)]"
  using filter_idempotent [of sample_tally 2]
  by (simp add: items_find_suspicious_users items_sample_tally)

end
